theory Spec2Isabelle
  imports Complex_Main
begin

section \<open>The batching light system of \<^verbatim>\<open>mpf/core/platform_batch_light_system.py\<close>\<close>

text \<open>
  A light object is referred to by its hardware number; Python compares two lights by
  object identity, which is equality of numbers here. Times (seconds) and brightness
  values are Python floats, modelled as exact rationals; fade durations are integers
  of milliseconds, as the type hint of \<^verbatim>\<open>set_fade\<close> says.
\<close>

type_synonym light_ref = nat
type_synonym fade_result = "rat \<times> int \<times> bool"
type_synonym fade_callback = "int \<Rightarrow> rat \<Rightarrow> fade_result"
type_synonym batch_entry = "light_ref \<times> rat \<times> int"

datatype error = NoneType_not_callable

subsection \<open>PlatformBatchLight\<close>

text \<open>
  The slots \<^verbatim>\<open>_callback\<close> and \<^verbatim>\<open>_last_brightness\<close>, both \<^verbatim>\<open>None\<close> after
  \<^verbatim>\<open>__init__\<close>. The abstract method \<^verbatim>\<open>get_max_fade_ms\<close> is a constant of the
  concrete light. The field \<open>calls\<close> is a ghost counter of the invocations of the stored
  callback; no definition reads it.
\<close>

record light =
  callback :: "fade_callback option"
  last_brightness :: "rat option"
  max_fade_ms :: int
  calls :: nat

definition PlatformBatchLight_init :: "int \<Rightarrow> light" where
  "PlatformBatchLight_init max_ms =
     \<lparr>callback = None, last_brightness = None, max_fade_ms = max_ms, calls = 0\<rparr>"

text \<open>Python's truth value of \<^verbatim>\<open>self._last_brightness\<close>: \<^verbatim>\<open>None\<close> and zero are false.\<close>

fun truthy :: "rat option \<Rightarrow> bool" where
  "truthy None = False"
| "truthy (Some b) = (b \<noteq> 0)"

definition get_fade_and_brightness :: "light \<Rightarrow> rat \<Rightarrow> error + (fade_result \<times> light)" where
  "get_fade_and_brightness l current_time =
     (case (if truthy (last_brightness l) then last_brightness l else None) of
        Some cached \<Rightarrow> Inr ((cached, 0, True), l)
      | None \<Rightarrow>
          (case callback l of
             None \<Rightarrow> Inl NoneType_not_callable
           | Some cb \<Rightarrow>
               (case cb (max_fade_ms l) current_time of
                  (brightness, fade_ms, done) \<Rightarrow>
                    Inr ((brightness, fade_ms, done),
                         (if done then l\<lparr>last_brightness := Some brightness\<rparr> else l)
                           \<lparr>calls := Suc (calls l)\<rparr>))))"

subsection \<open>PlatformBatchLightSystem\<close>

text \<open>
  The slots of the scheduler, together with the world it acts on: the clock read by
  \<^verbatim>\<open>clock.get_time()\<close>, the light objects it holds references to, and the list of
  batches the write sink \<^verbatim>\<open>update_callback\<close> has been awaited with. The field
  \<open>evaluated\<close> is a ghost log of the results of \<^verbatim>\<open>get_fade_and_brightness\<close>.
\<close>

record light_system =
  dirty_lights :: "light_ref list"
  dirty_schedule :: "(rat \<times> light_ref) list"
  is_sequential_function :: "light_ref \<Rightarrow> light_ref \<Rightarrow> bool"
  sort_function :: "light_ref \<Rightarrow> rat"
  update_hz :: int
  max_batch_size :: int
  clock :: rat
  lights :: "light_ref \<Rightarrow> light"
  sent :: "batch_entry list list"
  evaluated :: "(light_ref \<times> fade_result) list"

text \<open>\<^verbatim>\<open>__init__\<close> stores its arguments; it has no check and no raise.\<close>

definition PlatformBatchLightSystem_init ::
  "rat \<Rightarrow> (light_ref \<Rightarrow> light) \<Rightarrow> (light_ref \<Rightarrow> rat) \<Rightarrow> (light_ref \<Rightarrow> light_ref \<Rightarrow> bool)
     \<Rightarrow> int \<Rightarrow> int \<Rightarrow> error + light_system" where
  "PlatformBatchLightSystem_init now heap sort_fn is_sequential_fn hz max_size =
     Inr \<lparr>dirty_lights = [], dirty_schedule = [],
          is_sequential_function = is_sequential_fn, sort_function = sort_fn,
          update_hz = hz, max_batch_size = max_size,
          clock = now, lights = heap, sent = [], evaluated = []\<rparr>"

definition mark_dirty :: "light_ref \<Rightarrow> light_system \<Rightarrow> light_system" where
  "mark_dirty light s = s\<lparr>dirty_lights := dirty_lights s @ [light]\<rparr>"

definition set_fade :: "light_ref \<Rightarrow> fade_callback \<Rightarrow> light_system \<Rightarrow> light_system" where
  "set_fade light color_and_fade_callback s =
     (let s1 = mark_dirty light s
      in s1\<lparr>lights := (lights s1)
              (light := (lights s1 light)
                 \<lparr>callback := Some color_and_fade_callback, last_brightness := None\<rparr>)\<rparr>)"

text \<open>Awaiting the write sink: the batch is recorded as received.\<close>

definition update_callback :: "batch_entry list \<Rightarrow> light_system \<Rightarrow> light_system" where
  "update_callback batch s = s\<lparr>sent := sent s @ [batch]\<rparr>"

text \<open>
  The body of the \<^verbatim>\<open>for\<close> loop of \<^verbatim>\<open>_send_update_batch\<close>. The locals are
  \<^verbatim>\<open>sequential_brightness_list\<close>, \<^verbatim>\<open>common_fade_ms\<close> and \<^verbatim>\<open>current_time\<close>.
\<close>

type_synonym batch_locals = "batch_entry list \<times> int option \<times> rat"

definition send_update_batch_body ::
  "light_ref \<Rightarrow> batch_locals \<Rightarrow> light_system \<Rightarrow> error + (batch_locals \<times> light_system)" where
  "send_update_batch_body light loc s =
     (case loc of (sequential_brightness_list, common_fade_ms, current_time) \<Rightarrow>
      (case get_fade_and_brightness (lights s light) current_time of
         Inl e \<Rightarrow> Inl e
       | Inr ((brightness, fade_ms, done), l') \<Rightarrow>
           (let s1 = s\<lparr>lights := (lights s)(light := l'),
                       evaluated := evaluated s @ [(light, brightness, fade_ms, done)]\<rparr>;
                s2 = (if \<not> done
                      then s1\<lparr>dirty_schedule := dirty_schedule s1 @
                                [(current_time + of_int fade_ms / 1000, light)]\<rparr>
                      else s1);
                common = (case common_fade_ms of None \<Rightarrow> fade_ms | Some c \<Rightarrow> c)
            in if common = fade_ms
                  \<and> int (length sequential_brightness_list) < max_batch_size s2
               then Inr ((sequential_brightness_list @ [(light, brightness, common)],
                          Some common, current_time), s2)
               else (let s3 = update_callback sequential_brightness_list s2
                     in Inr (([(light, brightness, fade_ms)], Some fade_ms, clock s3), s3)))))"

fun send_update_batch_loop ::
  "light_ref list \<Rightarrow> batch_locals \<Rightarrow> light_system \<Rightarrow> error + (batch_locals \<times> light_system)" where
  "send_update_batch_loop [] loc s = Inr (loc, s)"
| "send_update_batch_loop (light # rest) loc s =
     (case send_update_batch_body light loc s of
        Inl e \<Rightarrow> Inl e
      | Inr (loc', s') \<Rightarrow> send_update_batch_loop rest loc' s')"

definition send_update_batch :: "light_ref list \<Rightarrow> light_system \<Rightarrow> error + light_system" where
  "send_update_batch sequential_lights s =
     (case send_update_batch_loop sequential_lights ([], None, clock s) s of
        Inl e \<Rightarrow> Inl e
      | Inr ((sequential_brightness_list, common_fade_ms, current_time), s') \<Rightarrow>
          (if sequential_brightness_list \<noteq> []
           then Inr (update_callback sequential_brightness_list s')
           else Inr s'))"

text \<open>
  The first \<^verbatim>\<open>while\<close> loop of \<^verbatim>\<open>_send_updates\<close>: as long as the head of
  \<^verbatim>\<open>dirty_schedule\<close> is due, its light is appended to \<^verbatim>\<open>dirty_lights\<close> and the head
  is deleted.
\<close>

fun promote_due :: "(rat \<times> light_ref) list \<Rightarrow> light_system \<Rightarrow> light_system" where
  "promote_due [] s = s\<lparr>dirty_schedule := []\<rparr>"
| "promote_due ((due, light) # rest) s =
     (if due \<le> clock s
      then promote_due rest (s\<lparr>dirty_lights := dirty_lights s @ [light]\<rparr>)
      else s\<lparr>dirty_schedule := (due, light) # rest\<rparr>)"

text \<open>
  The \<^verbatim>\<open>for\<close> loop over \<^verbatim>\<open>dirty_lights\<close>, with the locals \<^verbatim>\<open>sequential_lights\<close> and
  \<^verbatim>\<open>last_light\<close>. In the third branch \<^verbatim>\<open>sequential_lights\<close> is not empty, so
  \<^verbatim>\<open>sequential_lights[-1]\<close> is its last element.
\<close>

fun send_updates_loop ::
  "light_ref list \<Rightarrow> light_ref list \<Rightarrow> light_ref option \<Rightarrow> light_system
     \<Rightarrow> error + (light_ref list \<times> light_system)" where
  "send_updates_loop [] sequential_lights last_light s = Inr (sequential_lights, s)"
| "send_updates_loop (light # rest) sequential_lights last_light s =
     (if Some light = last_light
      then send_updates_loop rest sequential_lights last_light s
      else if sequential_lights = []
      then send_updates_loop rest [light] (Some light) s
      else if is_sequential_function s (last sequential_lights) light
      then send_updates_loop rest (sequential_lights @ [light]) (Some light) s
      else (case send_update_batch sequential_lights s of
              Inl e \<Rightarrow> Inl e
            | Inr s' \<Rightarrow> send_updates_loop rest [light] (Some light) s'))"

text \<open>
  One iteration of the \<^verbatim>\<open>while True\<close> loop of \<^verbatim>\<open>_send_updates\<close>, up to the sleep.
  Both calls of \<^verbatim>\<open>sorted\<close> build a new list and the statement drops it; the lists
  \<^verbatim>\<open>dirty_schedule\<close> and \<^verbatim>\<open>dirty_lights\<close> stay as they are.
\<close>

definition send_updates_iteration :: "light_system \<Rightarrow> error + light_system" where
  "send_updates_iteration s =
     (let _ = (if dirty_schedule s \<noteq> []
               then sort_key (\<lambda>x. fst x + sort_function s (snd x)) (dirty_schedule s)
               else []);
          s1 = promote_due (dirty_schedule s) s;
          _ = (if dirty_lights s1 \<noteq> []
               then sort_key (sort_function s1) (dirty_lights s1)
               else [])
      in (case send_updates_loop (dirty_lights s1) [] None s1 of
            Inl e \<Rightarrow> Inl e
          | Inr (sequential_lights, s2) \<Rightarrow>
              (case (if sequential_lights \<noteq> []
                     then send_update_batch sequential_lights s2
                     else Inr s2) of
                 Inl e \<Rightarrow> Inl e
               | Inr s3 \<Rightarrow> Inr (s3\<lparr>dirty_lights := []\<rparr>))))"

text \<open>
  The \<^verbatim>\<open>while True\<close> loop never returns; \<open>send_updates n\<close> is its first \<open>n\<close> iterations,
  the sleep of one millisecond moving the clock on.
\<close>

definition sleep :: "rat \<Rightarrow> light_system \<Rightarrow> light_system" where
  "sleep d s = s\<lparr>clock := clock s + d\<rparr>"

fun send_updates :: "nat \<Rightarrow> light_system \<Rightarrow> error + light_system" where
  "send_updates 0 s = Inr s"
| "send_updates (Suc n) s =
     (case send_updates_iteration s of
        Inl e \<Rightarrow> Inl e
      | Inr s' \<Rightarrow> send_updates n (sleep (1 / 1000) s'))"

subsection \<open>Observations and concrete configurations\<close>

text \<open>What the write sink received, and what was evaluated, between two states.\<close>

definition dispatched :: "light_system \<Rightarrow> light_system \<Rightarrow> batch_entry list list" where
  "dispatched s s' = drop (length (sent s)) (sent s')"

definition evaluations :: "light_system \<Rightarrow> light_system \<Rightarrow> (light_ref \<times> fade_result) list" where
  "evaluations s s' = drop (length (evaluated s)) (evaluated s')"

definition entry_of :: "light_ref \<times> fade_result \<Rightarrow> batch_entry" where
  "entry_of ev = (case ev of (light, brightness, fade_ms, done) \<Rightarrow> (light, brightness, fade_ms))"

definition fade_of :: "batch_entry \<Rightarrow> int" where
  "fade_of e = snd (snd e)"

definition reported_done :: "light_ref \<Rightarrow> light_ref \<times> fade_result \<Rightarrow> bool" where
  "reported_done light ev = (fst ev = light \<and> snd (snd (snd ev)))"

text \<open>
  A platform whose lights are sorted by their number and are sequential when the
  numbers are consecutive; callbacks of a fade that is over and of one that is running.
\<close>

definition by_number :: "light_ref \<Rightarrow> rat" where
  "by_number n = of_nat n"

definition consecutive :: "light_ref \<Rightarrow> light_ref \<Rightarrow> bool" where
  "consecutive a b = (b = Suc a)"

definition fade_done :: "rat \<Rightarrow> fade_callback" where
  "fade_done b max_ms t = (b, 0, True)"

definition fade_running :: "rat \<Rightarrow> int \<Rightarrow> fade_callback" where
  "fade_running b ms max_ms t = (b, ms, False)"

definition fade_until :: "rat \<Rightarrow> fade_callback" where
  "fade_until t_end max_ms t = (if t < t_end then (1 / 2, 1, False) else (1, 0, True))"

definition fresh_lights :: "light_ref \<Rightarrow> light" where
  "fresh_lights n = PlatformBatchLight_init 100"

definition dark_light :: light where
  "dark_light = (PlatformBatchLight_init 100)\<lparr>callback := Some (fade_done 0)\<rparr>"

definition example_system :: "int \<Rightarrow> light_system" where
  "example_system m =
     \<lparr>dirty_lights = [], dirty_schedule = [],
      is_sequential_function = consecutive, sort_function = by_number,
      update_hz = 30, max_batch_size = m,
      clock = 0, lights = fresh_lights, sent = [], evaluated = []\<rparr>"

definition three_dirty :: "int \<Rightarrow> light_system" where
  "three_dirty m =
     set_fade 3 (fade_done 1) (set_fade 2 (fade_done 1) (set_fade 1 (fade_done 1)
       (example_system m)))"

definition mixed_fades :: light_system where
  "mixed_fades =
     set_fade 3 (fade_running (1 / 4) 500) (set_fade 2 (fade_running (1 / 2) 500)
       (set_fade 1 (fade_done 1) (example_system 8)))"

definition reversed_pair :: light_system where
  "reversed_pair = set_fade 1 (fade_done 1) (set_fade 2 (fade_done 1) (example_system 8))"

definition long_then_short :: light_system where
  "long_then_short =
     set_fade 3 (fade_running (1 / 2) 1) (set_fade 1 (fade_running (1 / 2) 100000)
       (example_system 8))"

definition marked_twice :: light_system where
  "marked_twice =
     set_fade 1 (fade_done 1) (set_fade 2 (fade_done (1 / 2)) (set_fade 1 (fade_done (1 / 3))
       (example_system 8)))"

definition marked_twice_fading :: light_system where
  "marked_twice_fading =
     set_fade 1 (fade_until (1 / 1000)) (set_fade 2 (fade_until (1 / 1000))
       (set_fade 1 (fade_until (1 / 1000)) (example_system 8)))"

definition marked_twice_adjacent :: light_system where
  "marked_twice_adjacent =
     set_fade 1 (fade_done 1) (set_fade 1 (fade_done (1 / 3)) (example_system 8))"

definition lit_heap :: "light_ref \<Rightarrow> light" where
  "lit_heap n = (PlatformBatchLight_init 100)\<lparr>callback := Some (fade_done 1)\<rparr>"

subsection \<open>Invariants of the batching loop\<close>

text \<open>
  Between two iterations of the loop of \<^verbatim>\<open>_send_update_batch\<close> every entry of the
  open list carries \<^verbatim>\<open>common_fade_ms\<close>, the list is empty exactly before the first
  light, and, for a batch size of at least one, it holds at most that many entries.
\<close>

definition batch_inv :: "int \<Rightarrow> batch_entry list \<Rightarrow> int option \<Rightarrow> bool" where
  "batch_inv m lst common =
     ((\<forall>e\<in>set lst. common = Some (fade_of e)) \<and> (lst = [] \<longleftrightarrow> common = None) \<and>
      (1 \<le> m \<longrightarrow> int (length lst) \<le> m))"

definition batch_ok :: "int \<Rightarrow> batch_entry list \<Rightarrow> bool" where
  "batch_ok m b =
     ((\<forall>e\<in>set b. \<forall>e'\<in>set b. fade_of e = fade_of e') \<and>
      (1 \<le> m \<longrightarrow> b \<noteq> [] \<and> int (length b) \<le> m))"

definition trace_ext :: "light_system \<Rightarrow> light_system \<Rightarrow> bool" where
  "trace_ext s s' =
     (max_batch_size s' = max_batch_size s \<and>
      (\<exists>bs evs. sent s' = sent s @ bs \<and> evaluated s' = evaluated s @ evs \<and>
         (\<forall>b\<in>set bs. batch_ok (max_batch_size s) b) \<and> concat bs = map entry_of evs))"

text \<open>
  A state in which every light of the dirty list and of the reschedule queue has a stored
  callback, as after calls of \<^verbatim>\<open>set_fade\<close>; and what a flush leaves as it is.
\<close>

definition ready :: "light_system \<Rightarrow> bool" where
  "ready s = (\<forall>l\<in>set (dirty_lights s) \<union> snd ` set (dirty_schedule s).
                callback (lights s l) \<noteq> None)"

definition frame :: "light_ref set \<Rightarrow> light_system \<Rightarrow> light_system \<Rightarrow> bool" where
  "frame ls s s' =
     ((\<forall>l. callback (lights s' l) = callback (lights s l)) \<and>
      dirty_lights s' = dirty_lights s \<and>
      snd ` set (dirty_schedule s') \<subseteq> snd ` set (dirty_schedule s) \<union> ls)"

text \<open>
  What a part of one iteration does to the log of evaluations, the clock and the
  reschedule queue: the evaluations \<open>evs\<close> are appended, the clock stands still, the
  queue keeps its entries, and every evaluation that reported an unfinished fade has its
  entry at the current time plus the remaining duration.
\<close>

definition steps :: "light_system \<Rightarrow> light_system \<Rightarrow> (light_ref \<times> fade_result) list \<Rightarrow> bool" where
  "steps s s' evs =
     (evaluated s' = evaluated s @ evs \<and> clock s' = clock s \<and>
      set (dirty_schedule s) \<subseteq> set (dirty_schedule s') \<and>
      (\<forall>l b ms. (l, b, ms, False) \<in> set evs \<longrightarrow>
         (clock s + of_int ms / 1000, l) \<in> set (dirty_schedule s')))"

lemmas eval_defs = three_dirty_def mixed_fades_def reversed_pair_def long_then_short_def
  marked_twice_def marked_twice_fading_def marked_twice_adjacent_def lit_heap_def
  example_system_def set_fade_def mark_dirty_def
  send_updates_iteration_def send_update_batch_def send_update_batch_body_def
  get_fade_and_brightness_def update_callback_def sleep_def fresh_lights_def
  PlatformBatchLight_init_def PlatformBatchLightSystem_init_def
  fade_done_def fade_running_def fade_until_def consecutive_def
  by_number_def dispatched_def evaluations_def entry_of_def fade_of_def reported_done_def
  Let_def

section \<open>Properties of a light\<close>

lemma get_fade_and_brightness_cached:
  "last_brightness l = Some b \<Longrightarrow> b \<noteq> 0 \<Longrightarrow>
     get_fade_and_brightness l t = Inr ((b, 0, True), l)"
  by (simp add: get_fade_and_brightness_def)

lemma get_fade_and_brightness_caches:
  assumes "get_fade_and_brightness l t = Inr ((b, ms, True), l')"
  shows "last_brightness l' = Some b"
  using assms
  by (auto simp: get_fade_and_brightness_def split: option.splits if_splits prod.splits)

text \<open>
  C4. Once a fade is reported complete, every later evaluation before the next
  \<^verbatim>\<open>set_fade\<close> returns the cached brightness with zero duration and does not invoke
  the callback, for every terminal brightness, 0 included. The code tests the truth
  value of the cache, so a terminal brightness of 0 is stored and never used: the light
  below reports completion with brightness 0, the cache holds 0, and the second
  evaluation invokes the callback a second time.
\<close>

theorem terminal_zero_invokes_callback_again:
  "(case get_fade_and_brightness dark_light 0 of
      Inl e \<Rightarrow> False
    | Inr (r1, l1) \<Rightarrow>
        r1 = (0, 0, True) \<and> last_brightness l1 = Some 0 \<and> calls l1 = 1 \<and>
        (case get_fade_and_brightness l1 1 of
           Inl e \<Rightarrow> False
         | Inr (r2, l2) \<Rightarrow> r2 = (0, 0, True) \<and> calls l2 = 2))"
  by (simp add: get_fade_and_brightness_def dark_light_def PlatformBatchLight_init_def
      fade_done_def)

text \<open>
  C10. A light on which \<^verbatim>\<open>set_fade\<close> was never called and whose cache is unset has no
  callback: evaluating it calls \<^verbatim>\<open>None\<close> and fails. So an evaluation that returns was
  made on a light with a stored callback or a cached brightness. A light is in that
  state right after \<^verbatim>\<open>__init__\<close>, and the flush of a run that starts with such a light
  fails without a call of the write sink.
\<close>

theorem evaluate_without_set_fade_fails:
  "(callback l = None \<and> last_brightness l = None \<longrightarrow>
      get_fade_and_brightness l t = Inl NoneType_not_callable) \<and>
   (get_fade_and_brightness l t = Inr r \<longrightarrow>
      callback l \<noteq> None \<or> last_brightness l \<noteq> None) \<and>
   get_fade_and_brightness (PlatformBatchLight_init m) t = Inl NoneType_not_callable \<and>
   (callback (lights s light) = None \<and> last_brightness (lights s light) = None \<longrightarrow>
      send_update_batch (light # rest) s = Inl NoneType_not_callable)"
  by (auto simp: get_fade_and_brightness_def PlatformBatchLight_init_def
      send_update_batch_def send_update_batch_body_def split: option.splits)

theorem evaluate_without_set_fade_fails_witness:
  "callback (fresh_lights 3) = None \<and> last_brightness (fresh_lights 3) = None \<and>
   get_fade_and_brightness (fresh_lights 3) 0 = Inl NoneType_not_callable \<and>
   get_fade_and_brightness dark_light 0
     = Inr ((0, 0, True), dark_light\<lparr>last_brightness := Some 0, calls := 1\<rparr>) \<and>
   callback dark_light \<noteq> None \<and>
   callback (lights (mark_dirty 3 (example_system 8)) 3) = None \<and>
   last_brightness (lights (mark_dirty 3 (example_system 8)) 3) = None \<and>
   send_update_batch [3] (mark_dirty 3 (example_system 8)) = Inl NoneType_not_callable \<and>
   send_updates_iteration (mark_dirty 3 (example_system 8)) = Inl NoneType_not_callable"
  using evaluate_without_set_fade_fails [of "fresh_lights 3" 0
      "((0, 0, True), dark_light\<lparr>last_brightness := Some 0, calls := 1\<rparr>)" 100
      "mark_dirty 3 (example_system 8)" 3 "[]"]
    evaluate_without_set_fade_fails [of dark_light 0
      "((0, 0, True), dark_light\<lparr>last_brightness := Some 0, calls := 1\<rparr>)" 100
      "mark_dirty 3 (example_system 8)" 3 "[]"]
  by (simp add: eval_defs dark_light_def)

section \<open>Properties of \<^verbatim>\<open>_send_update_batch\<close>\<close>

lemma batch_inv_same_fade:
  assumes "batch_inv m lst common"
  shows "\<forall>e\<in>set lst. \<forall>e'\<in>set lst. fade_of e = fade_of e'"
proof (intro ballI)
  fix e e' assume "e \<in> set lst" "e' \<in> set lst"
  then have "common = Some (fade_of e)" "common = Some (fade_of e')"
    using assms unfolding batch_inv_def by blast+
  then show "fade_of e = fade_of e'" by simp
qed

lemma send_update_batch_body_cases:
  assumes "send_update_batch_body light (lst, common, ct) s = Inr ((lst', common', ct'), s')"
  obtains (extend) brightness fade_ms fin where
      "evaluated s' = evaluated s @ [(light, brightness, fade_ms, fin)]"
      "sent s' = sent s" "lst' = lst @ [(light, brightness, fade_ms)]"
      "common' = Some fade_ms" "common = None \<or> common = Some fade_ms"
      "int (length lst) < max_batch_size s" "max_batch_size s' = max_batch_size s"
    | (dispatch) brightness fade_ms fin where
      "evaluated s' = evaluated s @ [(light, brightness, fade_ms, fin)]"
      "sent s' = sent s @ [lst]" "lst' = [(light, brightness, fade_ms)]"
      "common' = Some fade_ms"
      "(common \<noteq> None \<and> common \<noteq> Some fade_ms) \<or> \<not> int (length lst) < max_batch_size s"
      "max_batch_size s' = max_batch_size s"
  using assms
  by (auto simp: send_update_batch_body_def update_callback_def Let_def
      split: sum.splits prod.splits option.splits if_splits)

lemma batch_inv_step:
  assumes "send_update_batch_body light (lst, common, ct) s = Inr ((lst', common', ct'), s')"
    and "batch_inv (max_batch_size s) lst common"
  shows "\<exists>bs ev. sent s' = sent s @ bs \<and> evaluated s' = evaluated s @ [ev] \<and> fst ev = light \<and>
     max_batch_size s' = max_batch_size s \<and> batch_inv (max_batch_size s) lst' common' \<and>
     (\<forall>b\<in>set bs. batch_ok (max_batch_size s) b) \<and> concat bs @ lst' = lst @ [entry_of ev]"
  using assms(1)
proof (cases rule: send_update_batch_body_cases)
  case (extend brightness fade_ms fin)
  have "batch_inv (max_batch_size s) lst' common'"
    using assms(2) extend by (auto simp: batch_inv_def fade_of_def)
  then show ?thesis using extend
    by (intro exI[of _ "[]"] exI[of _ "(light, brightness, fade_ms, fin)"])
       (simp add: entry_of_def)
next
  case (dispatch brightness fade_ms fin)
  have 1: "batch_inv (max_batch_size s) lst' common'"
    using dispatch by (auto simp: batch_inv_def fade_of_def)
  have "\<forall>e\<in>set lst. \<forall>e'\<in>set lst. fade_of e = fade_of e'"
    using assms(2) by (rule batch_inv_same_fade)
  moreover have "1 \<le> max_batch_size s \<longrightarrow> lst \<noteq> [] \<and> int (length lst) \<le> max_batch_size s"
    using assms(2) dispatch(5) by (auto simp: batch_inv_def)
  ultimately have 2: "batch_ok (max_batch_size s) lst"
    unfolding batch_ok_def by blast
  show ?thesis using 1 2 dispatch
    by (intro exI[of _ "[lst]"] exI[of _ "(light, brightness, fade_ms, fin)"])
       (simp add: entry_of_def)
qed

lemma send_update_batch_loop_inv:
  "send_update_batch_loop run (lst, common, ct) s = Inr ((lst', common', ct'), s') \<Longrightarrow>
   batch_inv (max_batch_size s) lst common \<Longrightarrow>
   \<exists>bs evs. sent s' = sent s @ bs \<and> evaluated s' = evaluated s @ evs \<and> map fst evs = run \<and>
     max_batch_size s' = max_batch_size s \<and> batch_inv (max_batch_size s) lst' common' \<and>
     (\<forall>b\<in>set bs. batch_ok (max_batch_size s) b) \<and> concat bs @ lst' = lst @ map entry_of evs"
proof (induction run arbitrary: lst common ct s)
  case Nil
  then show ?case by auto
next
  case (Cons light rest)
  from Cons.prems(1) obtain lst1 common1 ct1 s1 where
    body: "send_update_batch_body light (lst, common, ct) s = Inr ((lst1, common1, ct1), s1)"
    and rest: "send_update_batch_loop rest (lst1, common1, ct1) s1 = Inr ((lst', common', ct'), s')"
    by (auto split: sum.splits)
  from batch_inv_step[OF body Cons.prems(2)] obtain bs1 ev where
    s1: "sent s1 = sent s @ bs1" "evaluated s1 = evaluated s @ [ev]" "fst ev = light"
      "max_batch_size s1 = max_batch_size s" "batch_inv (max_batch_size s) lst1 common1"
      "\<forall>b\<in>set bs1. batch_ok (max_batch_size s) b" "concat bs1 @ lst1 = lst @ [entry_of ev]"
    by blast
  from Cons.IH[OF rest] s1(4,5) obtain bs2 evs where
    s2: "sent s' = sent s1 @ bs2" "evaluated s' = evaluated s1 @ evs" "map fst evs = rest"
      "max_batch_size s' = max_batch_size s" "batch_inv (max_batch_size s) lst' common'"
      "\<forall>b\<in>set bs2. batch_ok (max_batch_size s) b" "concat bs2 @ lst' = lst1 @ map entry_of evs"
    by auto
  have c: "concat (bs1 @ bs2) @ lst' = lst @ map entry_of (ev # evs)"
    using s1(7) s2(7) by simp
  have a: "sent s' = sent s @ (bs1 @ bs2)" "evaluated s' = evaluated s @ (ev # evs)"
    "map fst (ev # evs) = light # rest"
    using s1(1,2,3) s2(1,2,3) by simp_all
  have b: "\<forall>b\<in>set (bs1 @ bs2). batch_ok (max_batch_size s) b"
    using s1(6) s2(6) by auto
  show ?case
  proof (intro exI conjI)
    show "sent s' = sent s @ (bs1 @ bs2)" by (fact a(1))
    show "evaluated s' = evaluated s @ (ev # evs)" by (fact a(2))
    show "map fst (ev # evs) = light # rest" by (fact a(3))
    show "max_batch_size s' = max_batch_size s" by (fact s2(4))
    show "batch_inv (max_batch_size s) lst' common'" by (fact s2(5))
    show "\<forall>b\<in>set (bs1 @ bs2). batch_ok (max_batch_size s) b" by (fact b)
    show "concat (bs1 @ bs2) @ lst' = lst @ map entry_of (ev # evs)" by (fact c)
  qed
qed

lemma send_update_batch_sent:
  assumes "send_update_batch run s = Inr s'"
  shows "\<exists>bs evs. sent s' = sent s @ bs \<and> evaluated s' = evaluated s @ evs \<and> map fst evs = run \<and>
     max_batch_size s' = max_batch_size s \<and>
     (\<forall>b\<in>set bs. batch_ok (max_batch_size s) b) \<and> concat bs = map entry_of evs"
proof -
  from assms obtain lst' common' ct' s1 where
    loop: "send_update_batch_loop run ([], None, clock s) s = Inr ((lst', common', ct'), s1)"
    and fin: "s' = (if lst' \<noteq> [] then update_callback lst' s1 else s1)"
    by (auto simp: send_update_batch_def split: sum.splits prod.splits if_splits)
  have "batch_inv (max_batch_size s) [] None" by (simp add: batch_inv_def)
  from send_update_batch_loop_inv[OF loop this] obtain bs evs where
    s1: "sent s1 = sent s @ bs" "evaluated s1 = evaluated s @ evs" "map fst evs = run"
      "max_batch_size s1 = max_batch_size s" "batch_inv (max_batch_size s) lst' common'"
      "\<forall>b\<in>set bs. batch_ok (max_batch_size s) b" "concat bs @ lst' = map entry_of evs"
    by auto
  show ?thesis
  proof (cases "lst' = []")
    case True
    then have t: "sent s' = sent s @ bs" "evaluated s' = evaluated s @ evs"
      "max_batch_size s' = max_batch_size s" "concat bs = map entry_of evs"
      using s1(1,2,4,7) fin by simp_all
    show ?thesis
    proof (intro exI conjI)
      show "sent s' = sent s @ bs" by (fact t(1))
      show "evaluated s' = evaluated s @ evs" by (fact t(2))
      show "map fst evs = run" by (fact s1(3))
      show "max_batch_size s' = max_batch_size s" by (fact t(3))
      show "\<forall>b\<in>set bs. batch_ok (max_batch_size s) b" by (fact s1(6))
      show "concat bs = map entry_of evs" by (fact t(4))
    qed
  next
    case False
    have "\<forall>e\<in>set lst'. \<forall>e'\<in>set lst'. fade_of e = fade_of e'"
      using s1(5) by (rule batch_inv_same_fade)
    moreover have "1 \<le> max_batch_size s \<longrightarrow> int (length lst') \<le> max_batch_size s"
      using s1(5) unfolding batch_inv_def by blast
    ultimately have "batch_ok (max_batch_size s) lst'"
      unfolding batch_ok_def using False by blast
    then have b: "\<forall>b\<in>set (bs @ [lst']). batch_ok (max_batch_size s) b"
      using s1(6) by auto
    have t: "sent s' = sent s @ (bs @ [lst'])" "evaluated s' = evaluated s @ evs"
      "max_batch_size s' = max_batch_size s" "concat (bs @ [lst']) = map entry_of evs"
      using s1(1,2,4,7) fin False by (simp_all add: update_callback_def)
    show ?thesis
    proof (intro exI conjI)
      show "sent s' = sent s @ (bs @ [lst'])" by (fact t(1))
      show "evaluated s' = evaluated s @ evs" by (fact t(2))
      show "map fst evs = run" by (fact s1(3))
      show "max_batch_size s' = max_batch_size s" by (fact t(3))
      show "\<forall>b\<in>set (bs @ [lst']). batch_ok (max_batch_size s) b" by (fact b)
      show "concat (bs @ [lst']) = map entry_of evs" by (fact t(4))
    qed
  qed
qed

section \<open>Properties of the scheduler loop\<close>

lemma trace_ext_same:
  assumes "max_batch_size s' = max_batch_size s" "sent s' = sent s" "evaluated s' = evaluated s"
  shows "trace_ext s s'"
  unfolding trace_ext_def using assms by (intro conjI exI[of _ "[]"]) simp_all

lemma trace_ext_trans:
  assumes "trace_ext s s1" "trace_ext s1 s2"
  shows "trace_ext s s2"
proof -
  from assms(1) obtain bs evs where
    a: "max_batch_size s1 = max_batch_size s" "sent s1 = sent s @ bs"
      "evaluated s1 = evaluated s @ evs" "\<forall>b\<in>set bs. batch_ok (max_batch_size s) b"
      "concat bs = map entry_of evs"
    unfolding trace_ext_def by blast
  from assms(2) a(1) obtain bs' evs' where
    b: "max_batch_size s2 = max_batch_size s" "sent s2 = sent s1 @ bs'"
      "evaluated s2 = evaluated s1 @ evs'" "\<forall>b\<in>set bs'. batch_ok (max_batch_size s) b"
      "concat bs' = map entry_of evs'"
    unfolding trace_ext_def by auto
  have c: "\<forall>b\<in>set (bs @ bs'). batch_ok (max_batch_size s) b"
    using a(4) b(4) by auto
  have d: "concat (bs @ bs') = map entry_of (evs @ evs')"
    using a(5) b(5) by simp
  have e: "sent s2 = sent s @ (bs @ bs')" "evaluated s2 = evaluated s @ (evs @ evs')"
    using a(2,3) b(2,3) by simp_all
  show ?thesis
    unfolding trace_ext_def
  proof (intro conjI exI)
    show "max_batch_size s2 = max_batch_size s" by (fact b(1))
    show "sent s2 = sent s @ (bs @ bs')" by (fact e(1))
    show "evaluated s2 = evaluated s @ (evs @ evs')" by (fact e(2))
    show "\<forall>b\<in>set (bs @ bs'). batch_ok (max_batch_size s) b" by (fact c)
    show "concat (bs @ bs') = map entry_of (evs @ evs')" by (fact d)
  qed
qed

lemma send_update_batch_trace:
  assumes "send_update_batch run s = Inr s'"
  shows "trace_ext s s'"
  using send_update_batch_sent[OF assms] unfolding trace_ext_def by blast

lemma promote_due_fields:
  "max_batch_size (promote_due q s) = max_batch_size s \<and>
   sent (promote_due q s) = sent s \<and> evaluated (promote_due q s) = evaluated s"
  by (induction q s rule: promote_due.induct) simp_all

lemma send_updates_loop_trace:
  "send_updates_loop ds seq last_light s = Inr (seq', s') \<Longrightarrow> trace_ext s s'"
proof (induction ds arbitrary: seq last_light s)
  case Nil
  then show ?case by (simp add: trace_ext_same)
next
  case (Cons light rest)
  show ?case
  proof (cases "Some light = last_light \<or> seq = [] \<or> is_sequential_function s (last seq) light")
    case True
    then show ?thesis using Cons.prems Cons.IH by (auto split: if_splits)
  next
    case False
    then obtain s1 where
      f: "send_update_batch seq s = Inr s1"
      and r: "send_updates_loop rest [light] (Some light) s1 = Inr (seq', s')"
      using Cons.prems by (auto split: sum.splits)
    show ?thesis
      using trace_ext_trans[OF send_update_batch_trace[OF f] Cons.IH[OF r]] .
  qed
qed

lemma send_updates_iteration_trace:
  assumes "send_updates_iteration s = Inr s'"
  shows "trace_ext s s'"
proof -
  let ?s1 = "promote_due (dirty_schedule s) s"
  from assms obtain seq s2 s3 where
    l: "send_updates_loop (dirty_lights ?s1) [] None ?s1 = Inr (seq, s2)"
    and f: "(if seq \<noteq> [] then send_update_batch seq s2 else Inr s2) = Inr s3"
    and e: "s' = s3\<lparr>dirty_lights := []\<rparr>"
    by (auto simp: send_updates_iteration_def Let_def split: sum.splits prod.splits)
  have 1: "trace_ext s ?s1"
    by (rule trace_ext_same) (simp_all add: promote_due_fields)
  have 2: "trace_ext ?s1 s2" by (rule send_updates_loop_trace[OF l])
  have 3: "trace_ext s2 s3"
    using f by (cases "seq = []") (simp_all add: trace_ext_same send_update_batch_trace)
  have 4: "trace_ext s3 s'"
    by (rule trace_ext_same) (simp_all add: e)
  show ?thesis
    using trace_ext_trans[OF trace_ext_trans[OF trace_ext_trans[OF 1 2] 3] 4] .
qed

lemma send_updates_trace:
  "send_updates n s = Inr s' \<Longrightarrow> trace_ext s s'"
proof (induction n arbitrary: s)
  case 0
  then show ?case by (simp add: trace_ext_same)
next
  case (Suc n)
  then obtain s1 where
    i: "send_updates_iteration s = Inr s1"
    and r: "send_updates n (sleep (1 / 1000) s1) = Inr s'"
    by (auto split: sum.splits)
  have "trace_ext s1 (sleep (1 / 1000) s1)"
    by (rule trace_ext_same) (simp_all add: sleep_def)
  from trace_ext_trans[OF trace_ext_trans[OF send_updates_iteration_trace[OF i] this] Suc.IH[OF r]]
  show ?case .
qed

lemma trace_ext_dispatched:
  assumes "trace_ext s s'"
  shows "(\<forall>b\<in>set (dispatched s s'). batch_ok (max_batch_size s) b) \<and>
         concat (dispatched s s') = map entry_of (evaluations s s')"
  using assms unfolding trace_ext_def dispatched_def evaluations_def by auto

section \<open>The loop returns when the lights have callbacks\<close>

lemma frame_refl: "frame ls s s"
  by (simp add: frame_def)

lemma frame_trans:
  assumes "frame ls s s1" "frame ls' s1 s2"
  shows "frame (ls \<union> ls') s s2"
proof -
  have "snd ` set (dirty_schedule s1) \<subseteq> snd ` set (dirty_schedule s) \<union> ls"
    "snd ` set (dirty_schedule s2) \<subseteq> snd ` set (dirty_schedule s1) \<union> ls'"
    using assms unfolding frame_def by blast+
  then have "snd ` set (dirty_schedule s2) \<subseteq> snd ` set (dirty_schedule s) \<union> (ls \<union> ls')"
    by blast
  then show ?thesis
    using assms unfolding frame_def by simp
qed

lemma frame_mono: "frame ls s s' \<Longrightarrow> ls \<subseteq> ls' \<Longrightarrow> frame ls' s s'"
  unfolding frame_def by auto

lemma get_fade_and_brightness_total:
  assumes "callback l \<noteq> None"
  shows "\<exists>r l'. get_fade_and_brightness l t = Inr (r, l') \<and> callback l' = callback l"
  using assms
  by (auto simp: get_fade_and_brightness_def split: option.splits prod.splits)

lemma send_update_batch_body_total:
  assumes "callback (lights s light) \<noteq> None"
  shows "\<exists>loc' s'. send_update_batch_body light loc s = Inr (loc', s') \<and> frame {light} s s'"
proof -
  obtain lst common ct where loc: "loc = (lst, common, ct)" by (rule prod_cases3)
  from get_fade_and_brightness_total[OF assms, of ct] obtain b ms d l' where
    g: "get_fade_and_brightness (lights s light) ct = Inr ((b, ms, d), l')"
    and c: "callback l' = callback (lights s light)"
    by (metis prod_cases3)
  show ?thesis
    unfolding loc send_update_batch_body_def
    using g c by (auto simp: frame_def update_callback_def Let_def)
qed

lemma send_update_batch_loop_total:
  "\<forall>l\<in>set run. callback (lights s l) \<noteq> None \<Longrightarrow>
   \<exists>loc' s'. send_update_batch_loop run loc s = Inr (loc', s') \<and> frame (set run) s s'"
proof (induction run arbitrary: loc s)
  case Nil
  show ?case by (intro exI[of _ loc] exI[of _ s]) (simp add: frame_refl)
next
  case (Cons light rest)
  from send_update_batch_body_total[of s light loc] Cons.prems obtain loc1 s1 where
    b: "send_update_batch_body light loc s = Inr (loc1, s1)" and f1: "frame {light} s s1"
    by auto
  have "\<forall>l\<in>set rest. callback (lights s1 l) \<noteq> None"
    using Cons.prems f1 by (simp add: frame_def)
  from Cons.IH[OF this, of loc1] obtain loc' s' where
    r: "send_update_batch_loop rest loc1 s1 = Inr (loc', s')" and f2: "frame (set rest) s1 s'"
    by blast
  have "frame (set (light # rest)) s s'"
    using frame_trans[OF f1 f2] by simp
  then show ?case using b r
    by (intro exI[of _ loc'] exI[of _ s']) simp
qed

lemma send_update_batch_total:
  assumes "\<forall>l\<in>set run. callback (lights s l) \<noteq> None"
  shows "\<exists>s'. send_update_batch run s = Inr s' \<and> frame (set run) s s'"
proof -
  from send_update_batch_loop_total[OF assms, of "([], None, clock s)"] obtain loc' s1 where
    l: "send_update_batch_loop run ([], None, clock s) s = Inr (loc', s1)"
    and f: "frame (set run) s s1"
    by blast
  obtain lst common ct where loc: "loc' = (lst, common, ct)" by (rule prod_cases3)
  have "frame (set run) s (update_callback lst s1)"
    using f by (simp add: frame_def update_callback_def)
  then show ?thesis
    using l f unfolding send_update_batch_def loc by auto
qed

lemma send_updates_loop_total:
  "\<forall>l\<in>set ds \<union> set seq. callback (lights s l) \<noteq> None \<Longrightarrow>
   \<exists>seq' s'. send_updates_loop ds seq last_light s = Inr (seq', s') \<and>
      frame (set ds \<union> set seq) s s' \<and> set seq' \<subseteq> set ds \<union> set seq"
proof (induction ds arbitrary: seq last_light s)
  case Nil
  then show ?case by (simp add: frame_refl)
next
  case (Cons light rest)
  show ?case
  proof (cases "Some light = last_light")
    case True
    from Cons.IH[of seq s last_light] Cons.prems obtain seq' s' where
      "send_updates_loop rest seq last_light s = Inr (seq', s')"
      "frame (set rest \<union> set seq) s s'" "set seq' \<subseteq> set rest \<union> set seq"
      by auto
    then show ?thesis using True
      by (auto intro: frame_mono)
  next
    case nl: False
    show ?thesis
    proof (cases "seq = []")
      case True
      from Cons.IH[of "[light]" s "Some light"] Cons.prems obtain seq' s' where
        "send_updates_loop rest [light] (Some light) s = Inr (seq', s')"
        "frame (set rest \<union> set [light]) s s'" "set seq' \<subseteq> set rest \<union> set [light]"
        by auto
      then show ?thesis using True nl
        by (auto intro: frame_mono)
    next
      case ne: False
      show ?thesis
      proof (cases "is_sequential_function s (last seq) light")
        case True
        from Cons.IH[of "seq @ [light]" s "Some light"] Cons.prems obtain seq' s' where
          "send_updates_loop rest (seq @ [light]) (Some light) s = Inr (seq', s')"
          "frame (set rest \<union> set (seq @ [light])) s s'"
          "set seq' \<subseteq> set rest \<union> set (seq @ [light])"
          by auto
        then show ?thesis using True nl ne
          by (auto intro: frame_mono)
      next
        case False
        from send_update_batch_total[of seq s] Cons.prems obtain s1 where
          b: "send_update_batch seq s = Inr s1" and f1: "frame (set seq) s s1"
          by auto
        have "\<forall>l\<in>set rest \<union> set [light]. callback (lights s1 l) \<noteq> None"
          using Cons.prems f1 by (simp add: frame_def)
        from Cons.IH[OF this, of "Some light"] obtain seq' s' where
          r: "send_updates_loop rest [light] (Some light) s1 = Inr (seq', s')"
          and f2: "frame (set rest \<union> set [light]) s1 s'"
          and sub: "set seq' \<subseteq> set rest \<union> set [light]"
          by blast
        have "frame (set (light # rest) \<union> set seq) s s'"
          using frame_trans[OF f1 f2] by (rule frame_mono) auto
        then show ?thesis using False nl ne b r sub
          by auto
      qed
    qed
  qed
qed

lemma promote_due_ready:
  "snd ` set q \<subseteq> ls \<Longrightarrow> set (dirty_lights s) \<subseteq> ls \<Longrightarrow>
   set (dirty_lights (promote_due q s)) \<subseteq> ls \<and>
   snd ` set (dirty_schedule (promote_due q s)) \<subseteq> ls \<and>
   lights (promote_due q s) = lights s"
  by (induction q s rule: promote_due.induct) auto

lemma send_updates_iteration_total:
  assumes "ready s"
  shows "\<exists>s'. send_updates_iteration s = Inr s' \<and> ready s'"
proof -
  let ?ls = "{l. callback (lights s l) \<noteq> None}"
  let ?s1 = "promote_due (dirty_schedule s) s"
  have "snd ` set (dirty_schedule s) \<subseteq> ?ls" "set (dirty_lights s) \<subseteq> ?ls"
    using assms unfolding ready_def by auto
  from promote_due_ready[OF this] have
    p: "set (dirty_lights ?s1) \<subseteq> ?ls" "snd ` set (dirty_schedule ?s1) \<subseteq> ?ls"
      "lights ?s1 = lights s"
    by auto
  have "\<forall>l\<in>set (dirty_lights ?s1) \<union> set []. callback (lights ?s1 l) \<noteq> None"
    using p by auto
  from send_updates_loop_total[OF this, of None] obtain seq s2 where
    l: "send_updates_loop (dirty_lights ?s1) [] None ?s1 = Inr (seq, s2)"
    and f2: "frame (set (dirty_lights ?s1)) ?s1 s2" and sub: "set seq \<subseteq> set (dirty_lights ?s1)"
    by auto
  have "\<forall>l\<in>set seq. callback (lights s2 l) \<noteq> None"
    using sub p f2 by (auto simp: frame_def)
  from send_update_batch_total[OF this] obtain s3 where
    b: "send_update_batch seq s2 = Inr s3" and f3: "frame (set seq) s2 s3"
    by blast
  define s4 where "s4 = (if seq \<noteq> [] then s3 else s2)"
  have f4: "frame (set (dirty_lights ?s1)) ?s1 s4"
    using frame_trans[OF f2 f3] f2 sub unfolding s4_def by (auto intro: frame_mono)
  have r: "send_updates_iteration s = Inr (s4\<lparr>dirty_lights := []\<rparr>)"
    using l b unfolding send_updates_iteration_def s4_def by (simp add: Let_def)
  have "ready (s4\<lparr>dirty_lights := []\<rparr>)"
    unfolding ready_def
  proof
    fix l
    assume "l \<in> set (dirty_lights (s4\<lparr>dirty_lights := []\<rparr>))
              \<union> snd ` set (dirty_schedule (s4\<lparr>dirty_lights := []\<rparr>))"
    then have "l \<in> snd ` set (dirty_schedule s4)" by simp
    moreover have "snd ` set (dirty_schedule s4)
        \<subseteq> snd ` set (dirty_schedule ?s1) \<union> set (dirty_lights ?s1)"
      using f4 unfolding frame_def by blast
    ultimately have "l \<in> ?ls" using p(1,2) by blast
    moreover have "callback (lights s4 l) = callback (lights ?s1 l)"
      using f4 unfolding frame_def by blast
    ultimately show "callback (lights (s4\<lparr>dirty_lights := []\<rparr>) l) \<noteq> None"
      using p(3) by simp
  qed
  then show ?thesis using r by blast
qed

lemma send_updates_total:
  "ready s \<Longrightarrow> \<exists>s'. send_updates n s = Inr s' \<and> ready s'"
proof (induction n arbitrary: s)
  case 0
  then show ?case by simp
next
  case (Suc n)
  from send_updates_iteration_total[OF Suc.prems] obtain s1 where
    i: "send_updates_iteration s = Inr s1" and r: "ready s1" by blast
  have "ready (sleep (1 / 1000) s1)" using r by (simp add: ready_def sleep_def)
  from Suc.IH[OF this] show ?case using i by simp
qed

lemma ready_set_fade: "ready s \<Longrightarrow> ready (set_fade light cb s)"
  by (auto simp: ready_def set_fade_def mark_dirty_def Let_def)

section \<open>What the write sink receives\<close>

text \<open>
  C5. With a batch size of at least one, no list handed to the write sink holds more
  than \<^verbatim>\<open>max_batch_size\<close> entries: for the flush of any run, and for every list sent
  during any number of iterations of the scheduler loop.
\<close>

theorem batch_size_bound:
  assumes "1 \<le> max_batch_size s"
  shows "(send_update_batch run s = Inr s' \<longrightarrow>
            (\<forall>b\<in>set (dispatched s s'). int (length b) \<le> max_batch_size s)) \<and>
         (send_updates n s = Inr s'' \<longrightarrow>
            (\<forall>b\<in>set (dispatched s s''). int (length b) \<le> max_batch_size s))"
proof (intro conjI impI)
  assume "send_update_batch run s = Inr s'"
  from trace_ext_dispatched[OF send_update_batch_trace[OF this]] assms
  show "\<forall>b\<in>set (dispatched s s'). int (length b) \<le> max_batch_size s"
    unfolding batch_ok_def by blast
next
  assume "send_updates n s = Inr s''"
  from trace_ext_dispatched[OF send_updates_trace[OF this]] assms
  show "\<forall>b\<in>set (dispatched s s''). int (length b) \<le> max_batch_size s"
    unfolding batch_ok_def by blast
qed

theorem batch_size_bound_witness:
  "1 \<le> max_batch_size (three_dirty 2) \<and>
   (case send_update_batch [1, 2, 3] (three_dirty 2) of
      Inl e \<Rightarrow> False
    | Inr s' \<Rightarrow> dispatched (three_dirty 2) s' = [[(1, 1, 0), (2, 1, 0)], [(3, 1, 0)]]) \<and>
   (case send_updates (Suc 0) (three_dirty 2) of
      Inl e \<Rightarrow> False
    | Inr s' \<Rightarrow> dispatched (three_dirty 2) s' = [[(1, 1, 0), (2, 1, 0)], [(3, 1, 0)]]
        \<and> max_batch_size (three_dirty 2) = 2)"
  using batch_size_bound [of "three_dirty 2" "[1, 2, 3]"
      "projr (send_update_batch [1, 2, 3] (three_dirty 2))" "Suc 0"
      "projr (send_updates (Suc 0) (three_dirty 2))"]
  by (simp add: eval_defs)

text \<open>
  C8. With a batch size of at least one, the write sink is never called with an empty
  list: for the flush of any run, and during any number of iterations of the loop.
\<close>

theorem sink_batches_nonempty:
  assumes "1 \<le> max_batch_size s"
  shows "(send_update_batch run s = Inr s' \<longrightarrow> [] \<notin> set (dispatched s s')) \<and>
         (send_updates n s = Inr s'' \<longrightarrow> [] \<notin> set (dispatched s s''))"
proof (intro conjI impI)
  assume "send_update_batch run s = Inr s'"
  from trace_ext_dispatched[OF send_update_batch_trace[OF this]] assms
  show "[] \<notin> set (dispatched s s')"
    unfolding batch_ok_def by blast
next
  assume "send_updates n s = Inr s''"
  from trace_ext_dispatched[OF send_updates_trace[OF this]] assms
  show "[] \<notin> set (dispatched s s'')"
    unfolding batch_ok_def by blast
qed

theorem sink_batches_nonempty_witness:
  "1 \<le> max_batch_size (three_dirty 1) \<and>
   (case send_update_batch [1, 2, 3] (three_dirty 1) of
      Inl e \<Rightarrow> False
    | Inr s' \<Rightarrow> dispatched (three_dirty 1) s' = [[(1, 1, 0)], [(2, 1, 0)], [(3, 1, 0)]]) \<and>
   (case send_updates (Suc 0) (three_dirty 1) of
      Inl e \<Rightarrow> False
    | Inr s' \<Rightarrow> dispatched (three_dirty 1) s' = [[(1, 1, 0)], [(2, 1, 0)], [(3, 1, 0)]])"
  using sink_batches_nonempty [of "three_dirty 1" "[1, 2, 3]"
      "projr (send_update_batch [1, 2, 3] (three_dirty 1))" "Suc 0"
      "projr (send_updates (Suc 0) (three_dirty 1))"]
  by (simp add: eval_defs)

text \<open>
  C6. All entries of a list handed to the write sink carry the same fade duration, and
  the entries sent are, in order, the light, brightness and fade duration that the
  evaluations of the lights of the run reported.
\<close>

theorem batch_duration_homogeneous:
  "(send_update_batch run s = Inr s' \<longrightarrow>
      (\<forall>b\<in>set (dispatched s s'). \<forall>e\<in>set b. \<forall>e'\<in>set b. fade_of e = fade_of e') \<and>
      concat (dispatched s s') = map entry_of (evaluations s s') \<and>
      map fst (evaluations s s') = run) \<and>
   (send_updates n s = Inr s'' \<longrightarrow>
      (\<forall>b\<in>set (dispatched s s''). \<forall>e\<in>set b. \<forall>e'\<in>set b. fade_of e = fade_of e') \<and>
      concat (dispatched s s'') = map entry_of (evaluations s s''))"
proof (intro conjI impI)
  assume a: "send_update_batch run s = Inr s'"
  from trace_ext_dispatched[OF send_update_batch_trace[OF a]]
  show "\<forall>b\<in>set (dispatched s s'). \<forall>e\<in>set b. \<forall>e'\<in>set b. fade_of e = fade_of e'"
    and "concat (dispatched s s') = map entry_of (evaluations s s')"
    unfolding batch_ok_def by blast+
  from send_update_batch_sent[OF a]
  show "map fst (evaluations s s') = run"
    unfolding evaluations_def by auto
next
  assume "send_updates n s = Inr s''"
  from trace_ext_dispatched[OF send_updates_trace[OF this]]
  show "\<forall>b\<in>set (dispatched s s''). \<forall>e\<in>set b. \<forall>e'\<in>set b. fade_of e = fade_of e'"
    and "concat (dispatched s s'') = map entry_of (evaluations s s'')"
    unfolding batch_ok_def by blast+
qed

theorem batch_duration_homogeneous_witness:
  "(case send_update_batch [1, 2, 3] mixed_fades of
      Inl e \<Rightarrow> False
    | Inr s' \<Rightarrow>
        dispatched mixed_fades s' = [[(1, 1, 0)], [(2, 1 / 2, 500), (3, 1 / 4, 500)]] \<and>
        evaluations mixed_fades s' =
          [(1, 1, 0, True), (2, 1 / 2, 500, False), (3, 1 / 4, 500, False)]) \<and>
   (case send_updates (Suc 0) mixed_fades of
      Inl e \<Rightarrow> False
    | Inr s' \<Rightarrow>
        dispatched mixed_fades s' = [[(1, 1, 0)], [(2, 1 / 2, 500), (3, 1 / 4, 500)]])"
  using batch_duration_homogeneous [of "[1, 2, 3]" mixed_fades
      "projr (send_update_batch [1, 2, 3] mixed_fades)" "Suc 0"
      "projr (send_updates (Suc 0) mixed_fades)"]
  by (simp add: eval_defs)

section \<open>Construction\<close>

lemma send_update_batch_loop_sent_prefix:
  "send_update_batch_loop run loc s = Inr (loc', s') \<Longrightarrow> \<exists>bs. sent s' = sent s @ bs"
proof (induction run arbitrary: loc s)
  case Nil
  then show ?case by simp
next
  case (Cons light rest)
  then obtain loc1 s1 where
    b: "send_update_batch_body light loc s = Inr (loc1, s1)"
    and r: "send_update_batch_loop rest loc1 s1 = Inr (loc', s')"
    by (auto split: sum.splits)
  obtain lst common ct where loc: "loc = (lst, common, ct)" by (cases loc) auto
  obtain lst1 common1 ct1 where loc1: "loc1 = (lst1, common1, ct1)" by (cases loc1) auto
  have "\<exists>bs. sent s1 = sent s @ bs"
    using b unfolding loc loc1 by (cases rule: send_update_batch_body_cases) auto
  moreover have "\<exists>bs. sent s' = sent s1 @ bs" by (rule Cons.IH[OF r])
  ultimately show ?case by auto
qed

lemma first_batch_empty:
  assumes "max_batch_size s \<le> 0" "send_update_batch (light # rest) s = Inr s'"
  shows "\<exists>bs. dispatched s s' = [] # bs"
proof -
  from assms(2) obtain loc2 s2 where
    l: "send_update_batch_loop (light # rest) ([], None, clock s) s = Inr (loc2, s2)"
    and f: "\<exists>bs'. sent s' = sent s2 @ bs'"
    by (auto simp: send_update_batch_def update_callback_def
        split: sum.splits prod.splits if_splits)
  from l obtain loc1 s1 where
    b0: "send_update_batch_body light ([], None, clock s) s = Inr (loc1, s1)"
    and r0: "send_update_batch_loop rest loc1 s1 = Inr (loc2, s2)"
    by (auto split: sum.splits)
  obtain lst1 common1 ct1 where loc1: "loc1 = (lst1, common1, ct1)" by (cases loc1) auto
  note b = b0[unfolded loc1] and r = r0[unfolded loc1]
  from b assms(1) have 1: "sent s1 = sent s @ [[]]"
    by (cases rule: send_update_batch_body_cases) auto
  from send_update_batch_loop_sent_prefix[OF r] obtain bs where 2: "sent s2 = sent s1 @ bs"
    by blast
  from f obtain bs' where 3: "sent s' = sent s2 @ bs'"
    by blast
  have "sent s' = sent s @ ([] # (bs @ bs'))" using 1 2 3 by simp
  then show ?thesis unfolding dispatched_def by simp
qed

text \<open>
  C9, as the specification states it: constructing the scheduler with a batch size of
  zero or less fails at construction. It does not: \<^verbatim>\<open>__init__\<close> with
  \<^verbatim>\<open>max_batch_size = 0\<close> returns the scheduler.
\<close>

theorem init_accepts_zero_batch_size:
  "PlatformBatchLightSystem_init 0 fresh_lights by_number consecutive 30 0
     = Inr (example_system 0)"
  by (simp add: PlatformBatchLightSystem_init_def example_system_def)

text \<open>
  C9, amended. Construction never fails and stores \<^verbatim>\<open>max_batch_size\<close> as given, with
  both lists empty. A batch size of zero or less shows at the first flush: the first
  list handed to the write sink for a run that is not empty is the empty list.
\<close>

theorem init_never_fails:
  "(\<exists>s. PlatformBatchLightSystem_init now heap sort_fn is_sequential_fn hz m = Inr s \<and>
        max_batch_size s = m \<and> dirty_lights s = [] \<and> dirty_schedule s = [] \<and>
        (m \<le> 0 \<longrightarrow> send_update_batch (light # rest) s = Inr s' \<longrightarrow>
           (\<exists>bs. dispatched s s' = [] # bs)))"
proof -
  let ?s = "\<lparr>dirty_lights = [], dirty_schedule = [],
          is_sequential_function = is_sequential_fn, sort_function = sort_fn,
          update_hz = hz, max_batch_size = m,
          clock = now, lights = heap, sent = [], evaluated = []\<rparr>"
  have "m \<le> 0 \<longrightarrow> send_update_batch (light # rest) ?s = Inr s' \<longrightarrow>
           (\<exists>bs. dispatched ?s s' = [] # bs)"
    using first_batch_empty[of ?s light rest s'] by simp
  then show ?thesis
    unfolding PlatformBatchLightSystem_init_def by (intro exI[of _ ?s]) simp
qed

theorem init_never_fails_witness:
  "(0::int) \<le> 0 \<and>
   (case PlatformBatchLightSystem_init 0 lit_heap by_number consecutive 30 0 of
      Inl e \<Rightarrow> False
    | Inr s \<Rightarrow>
        (case send_update_batch [1, 2] s of
           Inl e \<Rightarrow> False
         | Inr s' \<Rightarrow> dispatched s s' = [[], [(1, 1, 0)], [(2, 1, 0)]]))"
  using init_never_fails [of 0 lit_heap by_number consecutive 30 0 1 "[2]"
      "projr (send_update_batch [1, 2]
         (projr (PlatformBatchLightSystem_init 0 lit_heap by_number consecutive 30 0)))"]
  by (simp add: eval_defs)

section \<open>Every dirty light is evaluated, every unfinished fade is rescheduled\<close>

lemma steps_refl: "steps s s []"
  by (simp add: steps_def)

lemma steps_trans:
  assumes "steps s s1 e1" "steps s1 s2 e2"
  shows "steps s s2 (e1 @ e2)"
  using assms unfolding steps_def by auto

lemma send_update_batch_body_steps:
  assumes "send_update_batch_body light (lst, common, clock s) s = Inr ((lst', common', ct'), s')"
  shows "\<exists>r. steps s s' [(light, r)] \<and> ct' = clock s"
  using assms
  by (auto simp: send_update_batch_body_def steps_def update_callback_def Let_def
      split: sum.splits prod.splits if_splits)

lemma send_update_batch_loop_steps:
  "send_update_batch_loop run (lst, common, clock s) s = Inr (loc', s') \<Longrightarrow>
   \<exists>evs. steps s s' evs \<and> map fst evs = run"
proof (induction run arbitrary: lst common s)
  case Nil
  then show ?case by (auto simp: steps_refl)
next
  case (Cons light rest)
  from Cons.prems obtain loc1 s1 where
    b0: "send_update_batch_body light (lst, common, clock s) s = Inr (loc1, s1)"
    and r0: "send_update_batch_loop rest loc1 s1 = Inr (loc', s')"
    by (auto split: sum.splits)
  obtain lst1 common1 ct1 where loc1: "loc1 = (lst1, common1, ct1)" by (rule prod_cases3)
  from send_update_batch_body_steps[OF b0[unfolded loc1]] obtain r where
    s1: "steps s s1 [(light, r)]" and ct: "ct1 = clock s" by blast
  have "clock s1 = clock s" using s1 by (simp add: steps_def)
  with r0 loc1 ct have "send_update_batch_loop rest (lst1, common1, clock s1) s1 = Inr (loc', s')"
    by simp
  from Cons.IH[OF this] obtain evs where s2: "steps s1 s' evs" and m: "map fst evs = rest"
    by blast
  have "steps s s' ([(light, r)] @ evs)" by (rule steps_trans[OF s1 s2])
  then show ?case using m by (intro exI[of _ "(light, r) # evs"]) simp
qed

lemma send_update_batch_steps:
  assumes "send_update_batch run s = Inr s'"
  shows "\<exists>evs. steps s s' evs \<and> map fst evs = run"
proof -
  from assms obtain loc' s1 where
    l: "send_update_batch_loop run ([], None, clock s) s = Inr (loc', s1)"
    and f: "s' = s1 \<or> (\<exists>b. s' = update_callback b s1)"
    by (auto simp: send_update_batch_def split: sum.splits prod.splits if_splits)
  from send_update_batch_loop_steps[OF l] obtain evs where
    e: "steps s s1 evs" "map fst evs = run" by blast
  have "steps s1 s' []" using f by (auto simp: steps_def update_callback_def)
  from steps_trans[OF e(1) this] e(2) show ?thesis by auto
qed

lemma send_updates_loop_steps:
  "send_updates_loop ds seq last_light s = Inr (seq', s') \<Longrightarrow>
   \<forall>l. last_light = Some l \<longrightarrow> l \<in> set seq \<Longrightarrow>
   \<exists>evs. steps s s' evs \<and> set ds \<union> set seq \<subseteq> fst ` set evs \<union> set seq'"
proof (induction ds arbitrary: seq last_light s)
  case Nil
  then show ?case by (auto intro: exI[of _ "[]"] simp: steps_refl)
next
  case (Cons light rest)
  show ?case
  proof (cases "Some light = last_light")
    case True
    then have r: "send_updates_loop rest seq last_light s = Inr (seq', s')"
      using Cons.prems(1) by simp
    from Cons.IH[OF r Cons.prems(2)] obtain evs where
      e: "steps s s' evs" "set rest \<union> set seq \<subseteq> fst ` set evs \<union> set seq'" by blast
    have "light \<in> set seq" using True Cons.prems(2) by auto
    then have "set (light # rest) \<union> set seq \<subseteq> fst ` set evs \<union> set seq'"
      using e(2) by auto
    then show ?thesis using e(1) by blast
  next
    case nl: False
    show ?thesis
    proof (cases "seq = [] \<or> is_sequential_function s (last seq) light")
      case True
      define seq1 where "seq1 = (if seq = [] then [light] else seq @ [light])"
      have r: "send_updates_loop rest seq1 (Some light) s = Inr (seq', s')"
        using Cons.prems(1) nl True unfolding seq1_def by (auto split: if_splits)
      have "\<forall>l. Some light = Some l \<longrightarrow> l \<in> set seq1" unfolding seq1_def by simp
      from Cons.IH[OF r this] obtain evs where
        e: "steps s s' evs" "set rest \<union> set seq1 \<subseteq> fst ` set evs \<union> set seq'" by blast
      have "set (light # rest) \<union> set seq \<subseteq> set rest \<union> set seq1"
        unfolding seq1_def by auto
      then have "set (light # rest) \<union> set seq \<subseteq> fst ` set evs \<union> set seq'"
        using e(2) by blast
      then show ?thesis using e(1) by blast
    next
      case False
      then obtain s1 where
        b: "send_update_batch seq s = Inr s1"
        and r: "send_updates_loop rest [light] (Some light) s1 = Inr (seq', s')"
        using Cons.prems(1) nl by (auto split: sum.splits)
      from send_update_batch_steps[OF b] obtain e1 where
        e1: "steps s s1 e1" "map fst e1 = seq" by blast
      have "\<forall>l. Some light = Some l \<longrightarrow> l \<in> set [light]" by simp
      from Cons.IH[OF r this] obtain e2 where
        e2: "steps s1 s' e2" "set rest \<union> set [light] \<subseteq> fst ` set e2 \<union> set seq'" by blast
      have "set seq = fst ` set e1" using e1(2) by (metis set_map)
      then have "set (light # rest) \<union> set seq \<subseteq> fst ` set (e1 @ e2) \<union> set seq'"
        using e2(2) by auto
      then show ?thesis using steps_trans[OF e1(1) e2(1)] by blast
    qed
  qed
qed

lemma promote_due_steps:
  "set q \<subseteq> set (dirty_schedule s) \<Longrightarrow>
   evaluated (promote_due q s) = evaluated s \<and> clock (promote_due q s) = clock s \<and>
   set (dirty_lights s) \<subseteq> set (dirty_lights (promote_due q s))"
  by (induction q s rule: promote_due.induct) auto

lemma send_updates_iteration_evaluates:
  assumes "send_updates_iteration s = Inr s'"
  shows "set (dirty_lights s) \<subseteq> fst ` set (evaluations s s') \<and>
         (\<forall>l b ms. (l, b, ms, False) \<in> set (evaluations s s') \<longrightarrow>
            (clock s + of_int ms / 1000, l) \<in> set (dirty_schedule s'))"
proof -
  let ?s1 = "promote_due (dirty_schedule s) s"
  from assms obtain seq s2 s3 where
    l: "send_updates_loop (dirty_lights ?s1) [] None ?s1 = Inr (seq, s2)"
    and f: "(if seq \<noteq> [] then send_update_batch seq s2 else Inr s2) = Inr s3"
    and e: "s' = s3\<lparr>dirty_lights := []\<rparr>"
    by (auto simp: send_updates_iteration_def Let_def split: sum.splits prod.splits)
  have p: "evaluated ?s1 = evaluated s" "clock ?s1 = clock s"
    "set (dirty_lights s) \<subseteq> set (dirty_lights ?s1)"
    using promote_due_steps[of "dirty_schedule s" s] by auto
  from send_updates_loop_steps[OF l] obtain e1 where
    e1: "steps ?s1 s2 e1" "set (dirty_lights ?s1) \<subseteq> fst ` set e1 \<union> set seq" by auto
  have "\<exists>e2. steps s2 s3 e2 \<and> set seq \<subseteq> fst ` set e2"
  proof (cases "seq = []")
    case True
    then show ?thesis using f by (auto intro: exI[of _ "[]"] simp: steps_refl)
  next
    case False
    then have "send_update_batch seq s2 = Inr s3" using f by simp
    from send_update_batch_steps[OF this] obtain e2 where
      "steps s2 s3 e2" "map fst e2 = seq" by blast
    then show ?thesis by (metis set_map subset_refl)
  qed
  then obtain e2 where e2: "steps s2 s3 e2" "set seq \<subseteq> fst ` set e2" by blast
  have st: "steps ?s1 s3 (e1 @ e2)" by (rule steps_trans[OF e1(1) e2(1)])
  have ev: "evaluations s s' = e1 @ e2"
    using st p(1) e unfolding steps_def evaluations_def by simp
  have "set (dirty_lights s) \<subseteq> fst ` set e1 \<union> fst ` set e2"
    using p(3) e1(2) e2(2) by blast
  then have 1: "set (dirty_lights s) \<subseteq> fst ` set (evaluations s s')"
    unfolding ev by (simp add: image_Un)
  have 2: "\<forall>l b ms. (l, b, ms, False) \<in> set (evaluations s s') \<longrightarrow>
            (clock s + of_int ms / 1000, l) \<in> set (dirty_schedule s')"
    using st p(2) e unfolding ev steps_def by simp
  show ?thesis using 1 2 by blast
qed

section \<open>Sorting, promotion and duplicate markings\<close>

text \<open>
  C1. The dirty list is ordered by the sort key before the runs are detected. The code
  calls \<^verbatim>\<open>sorted\<close> and drops its result: with lights 2 and 1 marked in this order
  the sorted list would be 1, 2, but the lights are evaluated as 2, 1, and the two
  consecutive lights are sent as two runs.
\<close>

theorem dirty_lights_processed_unsorted:
  "(case send_updates_iteration reversed_pair of
      Inl e \<Rightarrow> False
    | Inr s' \<Rightarrow>
        dirty_lights reversed_pair = [2, 1] \<and>
        sort_key (sort_function reversed_pair) (dirty_lights reversed_pair) = [1, 2] \<and>
        map fst (evaluated s') = [2, 1] \<and>
        sent s' = [[(2, 1, 0)], [(1, 1, 0)]])"
  by (simp add: eval_defs)

text \<open>
  C3. Every entry of the reschedule queue that is due is moved to the dirty list at the
  start of an iteration. The queue is not sorted either, and the loop only looks at its
  head: light 1 fades for 100 seconds and light 3 for one millisecond; in the second
  iteration, at one millisecond, the entry of light 3 is due, it stays in the queue
  behind that of light 1, and light 3 is not evaluated again.
\<close>

theorem due_entry_stays_queued:
  "(case send_updates (Suc (Suc 0)) long_then_short of
      Inl e \<Rightarrow> False
    | Inr s' \<Rightarrow>
        clock s' = 2 / 1000 \<and>
        dirty_schedule s' = [(100, 1), (1 / 1000, 3)] \<and>
        map fst (evaluated s') = [1, 3])"
  by (simp add: eval_defs)

text \<open>
  C7. Two calls of \<^verbatim>\<open>set_fade\<close> on one light before a flush lead to one evaluation
  of that light in the next iteration. With a call for light 2 between the two calls
  for light 1 the dirty list is 1, 2, 1; it stays unsorted, the test against the last
  light does not see the duplicate, and light 1 is evaluated and sent twice (both times
  with the second callback).
\<close>

theorem second_marking_evaluated_twice:
  "(case send_updates_iteration marked_twice of
      Inl e \<Rightarrow> False
    | Inr s' \<Rightarrow>
        dirty_lights marked_twice = [1, 2, 1] \<and>
        evaluated s' = [(1, 1, 0, True), (2, 1 / 2, 0, True), (1, 1, 0, True)] \<and>
        sent s' = [[(1, 1, 0), (2, 1 / 2, 0)], [(1, 1, 0)]])"
  by (simp add: eval_defs)

text \<open>Two markings next to each other do collapse, and the second callback is used.\<close>

lemma adjacent_markings_collapse:
  "(case send_updates_iteration marked_twice_adjacent of
      Inl e \<Rightarrow> False
    | Inr s' \<Rightarrow>
        dirty_lights marked_twice_adjacent = [1, 1] \<and>
        evaluated s' = [(1, 1, 0, True)] \<and> sent s' = [[(1, 1, 0)]])"
  by (simp add: eval_defs)

text \<open>
  C2. A light marked dirty is evaluated, evaluated again when its remaining duration
  has passed, and so on until completion is reported exactly once. With the dirty list
  1, 2, 1 of fades that last one millisecond, the first iteration evaluates light 1
  twice and reschedules it twice; the second iteration evaluates it twice again, and
  completion of light 1 is reported twice.
\<close>

theorem completion_reported_twice:
  "(case send_updates (Suc (Suc 0)) marked_twice_fading of
      Inl e \<Rightarrow> False
    | Inr s' \<Rightarrow>
        evaluated s' =
          [(1, 1 / 2, 1, False), (2, 1 / 2, 1, False), (1, 1 / 2, 1, False),
           (1, 1, 0, True), (2, 1, 0, True), (1, 1, 0, True)] \<and>
        length (filter (reported_done 1) (evaluated s')) = 2)"
  by (simp add: eval_defs)

end
